theory Spec2Isabelle
  imports Complex_Main "HOL-Library.Sublist"
begin

section \<open>Python values and exceptions\<close>

text \<open>
  The repository is two notebooks. The first wraps a blocking call so that it can be
  awaited (\<^verbatim>\<open>to_async\<close>, \<^verbatim>\<open>api_func\<close>, \<^verbatim>\<open>call_api_func\<close>, \<^verbatim>\<open>main\<close>); the second
  (\<^verbatim>\<open>aggregated_stats.ipynb\<close>) collects video lengths from a bucket, joins them with a
  database table and aggregates them.

  An exception is a value; an operation that may raise returns \<open>exn + 'a\<close> with \<open>Inl\<close>
  for the exception raised.
\<close>

datatype exn =
    KeyError
  | IndexError
  | TypeError
  | ValueError
  | FileNotFoundError
  | ClientError
  | JSONDecodeError
  | DatabaseError
  | OtherError string

type_synonym 'r outcome = "exn + 'r"

text \<open>
  What \<^verbatim>\<open>json.load\<close> returns: a dictionary has string keys, kept in the order of the
  document. Python floats are read as real numbers, so \<^verbatim>\<open>x / 1000\<close> is the exact
  quotient, of which the double that Python computes is the nearest one.
\<close>

datatype pyval =
    PNone
  | PBool bool
  | PInt int
  | PFloat real
  | PStr string
  | PList "pyval list"
  | PDict "(string \<times> pyval) list"

section \<open>The statistics notebook\<close>

subsection \<open>String operations of cell 2\<close>

text \<open>\<^verbatim>\<open>pat in s\<close> on strings: \<open>pat\<close> occurs in \<open>s\<close> as a contiguous run.\<close>

fun str_contains :: "string \<Rightarrow> string \<Rightarrow> bool" where
  "str_contains pat [] = (pat = [])"
| "str_contains pat (c # cs) = (prefix pat (c # cs) \<or> str_contains pat cs)"

text \<open>\<^verbatim>\<open>s.split(sep)\<close> for a separator of one character: never the empty list.\<close>

fun str_split :: "char \<Rightarrow> string \<Rightarrow> string list" where
  "str_split sep [] = [] # []"
| "str_split sep (c # cs) =
     (if c = sep then [] # str_split sep cs
      else (case str_split sep cs of
              [] \<Rightarrow> [c] # []
            | w # ws \<Rightarrow> (c # w) # ws))"

text \<open>\<^verbatim>\<open>sep.join(ws)\<close>.\<close>

fun str_join :: "string \<Rightarrow> string list \<Rightarrow> string" where
  "str_join sep [] = []"
| "str_join sep [w] = w"
| "str_join sep (w # v # ws) = w @ sep @ str_join sep (v # ws)"

text \<open>\<^verbatim>\<open>'/'.join(obj.key.split('/')[:-1])\<close>; the slice \<^verbatim>\<open>[:-1]\<close> is \<open>butlast\<close>.\<close>

definition vid_path_of :: "string \<Rightarrow> string" where
  "vid_path_of k = str_join ''/'' (butlast (str_split CHR ''/'' k))"

subsection \<open>Subscripts and division on loaded JSON\<close>

text \<open>
  \<^verbatim>\<open>v[name]\<close> with a string literal: only a dictionary has string subscripts; a list or
  a string wants an integer, anything else is not subscriptable.
\<close>

fun getitem_str :: "pyval \<Rightarrow> string \<Rightarrow> pyval outcome" where
  "getitem_str (PDict d) name =
     (case map_of d name of None \<Rightarrow> Inl KeyError | Some v \<Rightarrow> Inr v)"
| "getitem_str _ name = Inl TypeError"

text \<open>
  \<^verbatim>\<open>v[i]\<close> with an integer literal: a negative index counts from the end; a dictionary
  loaded from JSON has no integer key; a string yields the character as a string.
\<close>

definition seq_index :: "'a list \<Rightarrow> int \<Rightarrow> 'a outcome" where
  "seq_index xs i =
     (if 0 \<le> i \<and> i < int (length xs) then Inr (xs ! nat i)
      else if i < 0 \<and> - int (length xs) \<le> i then Inr (xs ! nat (int (length xs) + i))
      else Inl IndexError)"

fun getitem_int :: "pyval \<Rightarrow> int \<Rightarrow> pyval outcome" where
  "getitem_int (PList xs) i = seq_index xs i"
| "getitem_int (PStr s) i =
     (case seq_index s i of Inl e \<Rightarrow> Inl e | Inr c \<Rightarrow> Inr (PStr [c]))"
| "getitem_int (PDict d) i = Inl KeyError"
| "getitem_int _ i = Inl TypeError"

text \<open>\<^verbatim>\<open>v / d\<close> for a non-zero integer literal \<open>d\<close>: true division; \<^verbatim>\<open>bool\<close> is an \<^verbatim>\<open>int\<close>.\<close>

fun truediv :: "pyval \<Rightarrow> int \<Rightarrow> real outcome" where
  "truediv (PInt n) d = Inr (real_of_int n / real_of_int d)"
| "truediv (PFloat x) d = Inr (x / real_of_int d)"
| "truediv (PBool b) d = Inr ((if b then 1 else 0) / real_of_int d)"
| "truediv _ d = Inl TypeError"

text \<open>\<^verbatim>\<open>vid_data['most_watched_moments'][-1]['time_end_ms']\<close>\<close>

definition moments_lookup :: "pyval \<Rightarrow> pyval outcome" where
  "moments_lookup vid_data =
     (case getitem_str vid_data ''most_watched_moments'' of
        Inl e \<Rightarrow> Inl e
      | Inr moments \<Rightarrow>
          (case getitem_int moments (- 1) of
             Inl e \<Rightarrow> Inl e
           | Inr moment \<Rightarrow> getitem_str moment ''time_end_ms''))"

text \<open>\<^verbatim>\<open>vid_len = vid_data['most_watched_moments'][-1]['time_end_ms']/1000\<close>\<close>

definition vid_len_of :: "pyval \<Rightarrow> real outcome" where
  "vid_len_of vid_data =
     (case moments_lookup vid_data of
        Inl e \<Rightarrow> Inl e
      | Inr t \<Rightarrow> truediv t 1000)"

text \<open>
  The precondition under which the lookup is safe: the document is a dictionary whose
  \<^verbatim>\<open>most_watched_moments\<close> is a non-empty list, the last element of which is a
  dictionary with a \<^verbatim>\<open>time_end_ms\<close> key.
\<close>

fun has_key :: "pyval \<Rightarrow> string \<Rightarrow> bool" where
  "has_key (PDict d) name = (map_of d name \<noteq> None)"
| "has_key _ name = False"

fun nonempty_moments :: "pyval \<Rightarrow> bool" where
  "nonempty_moments (PDict d) =
     (case map_of d ''most_watched_moments'' of
        Some (PList xs) \<Rightarrow> xs \<noteq> [] \<and> has_key (last xs) ''time_end_ms''
      | _ \<Rightarrow> False)"
| "nonempty_moments _ = False"

subsection \<open>Cell 2: the loop over the bucket\<close>

text \<open>
  An object of the bucket: its key, and what \<^verbatim>\<open>download_file\<close> does for it, either
  the bytes it writes to the target file or the exception it raises.
\<close>

record s3_object =
  key :: string
  download :: "string outcome"

text \<open>
  The notebook's state: the files of the working directory and the dictionary
  \<^verbatim>\<open>all_data\<close>. A Python dictionary keeps its keys in insertion order, and assigning
  to a key already present keeps the key's place: an association list with
  \<open>dict_setitem\<close>.
\<close>

record nb_state =
  fs :: "string \<rightharpoonup> string"
  all_data :: "(string \<times> real) list"

fun dict_setitem :: "('k \<times> 'v) list \<Rightarrow> 'k \<Rightarrow> 'v \<Rightarrow> ('k \<times> 'v) list" where
  "dict_setitem [] k v = [(k, v)]"
| "dict_setitem ((k', v') # d) k v =
     (if k' = k then (k, v) # d else (k', v') # dict_setitem d k v)"

definition download_file :: "s3_object \<Rightarrow> string \<Rightarrow> nb_state \<Rightarrow> exn option \<times> nb_state" where
  "download_file obj target st =
     (case download obj of
        Inl e \<Rightarrow> (Some e, st)
      | Inr bytes \<Rightarrow> (None, st\<lparr>fs := (fs st)(target \<mapsto> bytes)\<rparr>))"

definition open_read :: "string \<Rightarrow> nb_state \<Rightarrow> string outcome" where
  "open_read name st =
     (case fs st name of None \<Rightarrow> Inl FileNotFoundError | Some bytes \<Rightarrow> Inr bytes)"

text \<open>
  The body of the loop for one object. \<open>json_load\<close> is the parser (\<^verbatim>\<open>json.load\<close>), a
  parameter. The result is the exception that ended the body, if any, and the state
  then.
\<close>

definition loop_body ::
  "(string \<Rightarrow> pyval outcome) \<Rightarrow> s3_object \<Rightarrow> nb_state \<Rightarrow> exn option \<times> nb_state" where
  "loop_body json_load obj st =
     (let target = ''tmp_data.json'' in
      if str_contains ''video_data.json'' (key obj) then
        (case download_file obj target st of
           (Some e, st1) \<Rightarrow> (Some e, st1)
         | (None, st1) \<Rightarrow>
             (case open_read ''tmp_data.json'' st1 of
                Inl e \<Rightarrow> (Some e, st1)
              | Inr f \<Rightarrow>
                  (case json_load f of
                     Inl e \<Rightarrow> (Some e, st1)
                   | Inr vid_data \<Rightarrow>
                       (let vid_path = vid_path_of (key obj) in
                        case vid_len_of vid_data of
                          Inl e \<Rightarrow> (Some e, st1)
                        | Inr vid_len \<Rightarrow>
                            (None, st1\<lparr>all_data :=
                                     dict_setitem (all_data st1) vid_path vid_len\<rparr>)))))
      else (None, st))"

text \<open>
  \<^verbatim>\<open>for obj in bucket.objects.all()\<close>: the listing is fetched page by page while the
  loop runs, so an item is an object or the exception the listing raises there.
\<close>

fun cell2_loop ::
  "(string \<Rightarrow> pyval outcome) \<Rightarrow> (exn + s3_object) list \<Rightarrow> nb_state \<Rightarrow> exn option \<times> nb_state" where
  "cell2_loop json_load [] st = (None, st)"
| "cell2_loop json_load (Inl e # objs) st = (Some e, st)"
| "cell2_loop json_load (Inr obj # objs) st =
     (case loop_body json_load obj st of
        (Some e, st1) \<Rightarrow> (Some e, st1)
      | (None, st1) \<Rightarrow> cell2_loop json_load objs st1)"

definition cell2 ::
  "(string \<Rightarrow> pyval outcome) \<Rightarrow> (exn + s3_object) list \<Rightarrow> nb_state \<Rightarrow> exn option \<times> nb_state" where
  "cell2 json_load objs st = cell2_loop json_load objs (st\<lparr>all_data := []\<rparr>)"

text \<open>
  Cell 3: \<^verbatim>\<open>pd.DataFrame(list(all_data.items()), columns=['s3_path', 'vid_len'])\<close>, a
  frame as the list of its rows.
\<close>

definition cell3 :: "nb_state \<Rightarrow> (string \<times> real) list" where
  "cell3 st = all_data st"

definition s3_path_column :: "(string \<times> 'a) list \<Rightarrow> string list" where
  "s3_path_column df = map fst df"

subsection \<open>Cells 7 and 8: the table of videos and the join\<close>

text \<open>
  A row of \<^verbatim>\<open>autoshorts.videos\<close>: the two columns the notebook reads, the path
  nullable as a column of the database is, and whatever other columns
  \<^verbatim>\<open>SELECT *\<close> returns in the extension of the record.
\<close>

record 'c video =
  s3_path :: "string option"
  category_id :: 'c

text \<open>
  The database as the notebook sees it: whether \<^verbatim>\<open>postgres_engine.connect()\<close> raises,
  and what a statement returns.
\<close>

record ('c, 'm) database =
  connect_error :: "exn option"
  execute :: "string \<Rightarrow> ('c, 'm) video_scheme list outcome"

text \<open>
  \<^verbatim>\<open>pd.read_sql_query(text('SELECT * FROM autoshorts.videos'), con=conn)\<close>, of which
  the columns \<^verbatim>\<open>s3_path\<close> and \<^verbatim>\<open>category_id\<close> are kept, inside
  \<^verbatim>\<open>with postgres_engine.connect() as conn\<close>. The first component is the list of
  statements sent to the database.
\<close>

definition cell7 :: "('c, 'm) database \<Rightarrow> string list \<times> (string option \<times> 'c) list outcome" where
  "cell7 db =
     (case connect_error db of
        Some e \<Rightarrow> ([], Inl e)
      | None \<Rightarrow>
          (let query = ''SELECT * FROM autoshorts.videos'' in
           case execute db query of
             Inl e \<Rightarrow> ([query], Inl e)
           | Inr rows \<Rightarrow> ([query], Inr (map (\<lambda>r. (s3_path r, category_id r)) rows))))"

text \<open>
  \<^verbatim>\<open>df.merge(df_vids, on='s3_path')\<close>: an inner join, in the order of the left frame.
\<close>

definition df_merge ::
  "(string \<times> real) list \<Rightarrow> (string option \<times> 'c) list \<Rightarrow> (string \<times> real \<times> 'c) list" where
  "df_merge df df_vids =
     concat (map (\<lambda>(p, vid_len).
                    map (\<lambda>(q, c). (p, vid_len, c))
                        (filter (\<lambda>(q, c). q = Some p) df_vids)) df)"

text \<open>
  The cells in order, each run only if the one before did not raise: the statements
  sent to the database, and \<^verbatim>\<open>final_df\<close> or the exception that stopped the run.
\<close>

definition notebook ::
  "(string \<Rightarrow> pyval outcome) \<Rightarrow> (exn + s3_object) list \<Rightarrow> ('c, 'm) database \<Rightarrow> nb_state
     \<Rightarrow> string list \<times> (string \<times> real \<times> 'c) list outcome" where
  "notebook json_load objs db st =
     (case cell2 json_load objs st of
        (Some e, st1) \<Rightarrow> ([], Inl e)
      | (None, st1) \<Rightarrow>
          (let df = cell3 st1 in
           case cell7 db of
             (sql, Inl e) \<Rightarrow> (sql, Inl e)
           | (sql, Inr df_vids) \<Rightarrow> (sql, Inr (df_merge df df_vids))))"

section \<open>The asynchronous wrapper notebook\<close>

subsection \<open>Thread pools, futures and the event loop\<close>

text \<open>
  The notebook's own code is \<^verbatim>\<open>to_async\<close>, \<^verbatim>\<open>api_func\<close>, \<^verbatim>\<open>call_api_func\<close> and
  \<^verbatim>\<open>main\<close>. What it calls of \<^verbatim>\<open>concurrent.futures\<close> and \<^verbatim>\<open>asyncio\<close>
  (\<^verbatim>\<open>ThreadPoolExecutor\<close>, \<^verbatim>\<open>run_in_executor\<close>, \<^verbatim>\<open>await\<close> on a future, \<^verbatim>\<open>gather\<close>)
  is modelled as CPython 3.10, the kernel of the notebook, documents it. Which thread
  finishes next is not decided by the program: it is a parameter, the schedule.

  A job is a call with its arguments bound; running it returns a value or raises. A
  thread pool has its number of workers and the jobs submitted and not yet finished,
  oldest first, each with the future that receives its outcome. The workers take jobs
  in that order, so the jobs being run are the first \<open>max_workers\<close> of the queue.
\<close>

type_synonym 'r job = "unit \<Rightarrow> 'r outcome"

record 'r pool =
  max_workers :: nat
  work_queue :: "(nat \<times> 'r job) list"

text \<open>
  The Python process: the thread pools created so far (a pool is named by its
  position), the default executor of the event loop, if it has one yet, what
  \<^verbatim>\<open>os.cpu_count()\<close> returns, and the futures (\<open>None\<close> while pending). The kernel
  runs one event loop.
\<close>

record 'r kernel =
  executors :: "'r pool list"
  default_executor :: "nat option"
  cpu_count :: "nat option"
  futures :: "'r outcome option list"

datatype loop_ref = Kernel_loop

definition get_event_loop :: "'r kernel \<Rightarrow> loop_ref" where
  "get_event_loop st = Kernel_loop"

definition new_pool :: "nat \<Rightarrow> 'r kernel \<Rightarrow> nat \<times> 'r kernel" where
  "new_pool n st =
     (length (executors st),
      st\<lparr>executors := executors st @ [\<lparr>max_workers = n, work_queue = []\<rparr>]\<rparr>)"

text \<open>\<^verbatim>\<open>min(32, (os.cpu_count() or 1) + 4)\<close>, the size of a pool created without one.\<close>

definition default_max_workers :: "'r kernel \<Rightarrow> nat" where
  "default_max_workers st =
     min 32 ((case cpu_count st of None \<Rightarrow> 1 | Some n \<Rightarrow> if n = 0 then 1 else n) + 4)"

definition ThreadPoolExecutor :: "nat option \<Rightarrow> 'r kernel \<Rightarrow> (nat \<times> 'r kernel) outcome" where
  "ThreadPoolExecutor workers st =
     (case workers of
        None \<Rightarrow> Inr (new_pool (default_max_workers st) st)
      | Some n \<Rightarrow> if n = 0 then Inl ValueError else Inr (new_pool n st))"

text \<open>\<^verbatim>\<open>executor.submit(fn)\<close>: a new pending future, the job at the end of the queue.\<close>

definition submit :: "nat \<Rightarrow> 'r job \<Rightarrow> 'r kernel \<Rightarrow> nat \<times> 'r kernel" where
  "submit ex fn st =
     (let fut = length (futures st); p = executors st ! ex
      in (fut, st\<lparr>executors := (executors st)[ex := p\<lparr>work_queue := work_queue p @ [(fut, fn)]\<rparr>],
                  futures := futures st @ [None]\<rparr>))"

text \<open>
  \<^verbatim>\<open>loop.run_in_executor(executor, func)\<close>: with \<^verbatim>\<open>executor=None\<close> the job goes to the
  loop's default executor, which is created at the first such call.
\<close>

definition run_in_executor :: "loop_ref \<Rightarrow> nat option \<Rightarrow> 'r job \<Rightarrow> 'r kernel \<Rightarrow> nat \<times> 'r kernel" where
  "run_in_executor loop executor func st =
     (case executor of
        Some ex \<Rightarrow> submit ex func st
      | None \<Rightarrow>
          (case default_executor st of
             Some ex \<Rightarrow> submit ex func st
           | None \<Rightarrow>
               (let (ex, st1) = new_pool (default_max_workers st) st
                in submit ex func (st1\<lparr>default_executor := Some ex\<rparr>))))"

definition running :: "'r pool \<Rightarrow> (nat \<times> 'r job) list" where
  "running p = take (max_workers p) (work_queue p)"

text \<open>
  A worker of pool \<open>ex\<close> finishes the \<open>k\<close>-th job of the queue, which must be one of
  those being run: the job leaves the queue and its future gets the outcome.
\<close>

definition finish :: "nat \<Rightarrow> nat \<Rightarrow> 'r kernel \<Rightarrow> (nat \<times> 'r kernel) option" where
  "finish ex k st =
     (if ex < length (executors st) \<and> k < length (running (executors st ! ex)) then
        (let p = executors st ! ex;
             (fut, fn) = work_queue p ! k;
             q = take k (work_queue p) @ drop (Suc k) (work_queue p)
         in Some (fut, st\<lparr>executors := (executors st)[ex := p\<lparr>work_queue := q\<rparr>],
                          futures := (futures st)[fut := Some (fn ())]\<rparr>))
      else None)"

text \<open>
  What the worker threads do while coroutines are suspended is a schedule: which
  pool finishes which of its running jobs next. A schedule that names a job not being
  run is not one the threads can follow (\<open>None\<close>).
\<close>

fun run_sched :: "(nat \<times> nat) list \<Rightarrow> 'r kernel \<Rightarrow> 'r kernel option" where
  "run_sched [] st = Some st"
| "run_sched ((ex, k) # sched) st =
     (case finish ex k st of
        None \<Rightarrow> None
      | Some (fut, st1) \<Rightarrow> run_sched sched st1)"

text \<open>\<^verbatim>\<open>await fut\<close>: nothing while the future is pending, then its value or exception.\<close>

definition await :: "nat \<Rightarrow> 'r kernel \<Rightarrow> 'r outcome option" where
  "await fut st = (if fut < length (futures st) then futures st ! fut else None)"

definition wf_kernel :: "'r kernel \<Rightarrow> bool" where
  "wf_kernel st \<longleftrightarrow>
     (\<forall>p \<in> set (executors st).
        0 < max_workers p \<and> (\<forall>(fut, fn) \<in> set (work_queue p). fut < length (futures st)))
     \<and> (case default_executor st of None \<Rightarrow> True | Some ex \<Rightarrow> ex < length (executors st))"

definition valid_executor :: "nat option \<Rightarrow> 'r kernel \<Rightarrow> bool" where
  "valid_executor executor st =
     (case executor of None \<Rightarrow> True | Some ex \<Rightarrow> ex < length (executors st))"

definition fresh_kernel :: "nat option \<Rightarrow> 'r kernel" where
  "fresh_kernel cpus = \<lparr>executors = [], default_executor = None, cpu_count = cpus, futures = []\<rparr>"

subsection \<open>The wrapper\<close>

text \<open>\<^verbatim>\<open>partial(func, *args, **kwargs)\<close>\<close>

definition partial :: "('a \<Rightarrow> 'k \<Rightarrow> 'r outcome) \<Rightarrow> 'a \<Rightarrow> 'k \<Rightarrow> 'r job" where
  "partial func args kwargs = (\<lambda>_. func args kwargs)"

text \<open>
  The coroutine \<^verbatim>\<open>run(*args, loop=None, executor=None, **kwargs)\<close> up to its
  \<^verbatim>\<open>await\<close>: the future it is suspended on.
\<close>

definition run_dispatch ::
  "('a \<Rightarrow> 'k \<Rightarrow> 'r outcome) \<Rightarrow> 'a \<Rightarrow> loop_ref option \<Rightarrow> nat option \<Rightarrow> 'k \<Rightarrow> 'r kernel
     \<Rightarrow> nat \<times> 'r kernel" where
  "run_dispatch func args loop executor kwargs st =
     (let loop = (case loop of None \<Rightarrow> get_event_loop st | Some l \<Rightarrow> l);
          pfunc = partial func args kwargs
      in run_in_executor loop executor pfunc st)"

text \<open>
  The whole coroutine, with the schedule the threads follow while it is suspended:
  \<open>None\<close> for no schedule, else what \<^verbatim>\<open>return await ...\<close> yields (nothing while the
  future is pending) and the state.
\<close>

definition run ::
  "('a \<Rightarrow> 'k \<Rightarrow> 'r outcome) \<Rightarrow> 'a \<Rightarrow> loop_ref option \<Rightarrow> nat option \<Rightarrow> 'k
     \<Rightarrow> (nat \<times> nat) list \<Rightarrow> 'r kernel \<Rightarrow> ('r outcome option \<times> 'r kernel) option" where
  "run func args loop executor kwargs sched st =
     (let (fut, st1) = run_dispatch func args loop executor kwargs st
      in case run_sched sched st1 of
           None \<Rightarrow> None
         | Some st2 \<Rightarrow> Some (await fut st2, st2))"

definition to_async ::
  "('a \<Rightarrow> 'k \<Rightarrow> 'r outcome) \<Rightarrow> 'a \<Rightarrow> loop_ref option \<Rightarrow> nat option \<Rightarrow> 'k
     \<Rightarrow> (nat \<times> nat) list \<Rightarrow> 'r kernel \<Rightarrow> ('r outcome option \<times> 'r kernel) option" where
  "to_async func = run func"

subsection \<open>The cell that uses the wrapper\<close>

text \<open>\<^verbatim>\<open>_executor = ThreadPoolExecutor(1)\<close>\<close>

definition make_executor :: "int kernel \<Rightarrow> (nat \<times> int kernel) outcome" where
  "make_executor st = ThreadPoolExecutor (Some 1) st"

text \<open>The function under the decorator: \<^verbatim>\<open>sleep(3); return 1\<close>. Time is not modelled.\<close>

definition api_func_blocking :: "unit \<Rightarrow> unit \<Rightarrow> int outcome" where
  "api_func_blocking args kwargs = Inr 1"

text \<open>
  \<^verbatim>\<open>call_api_func()\<close> up to its \<^verbatim>\<open>await\<close>: it calls \<^verbatim>\<open>api_func()\<close> with no argument,
  so with \<^verbatim>\<open>loop=None\<close> and \<^verbatim>\<open>executor=None\<close>. Once resumed it returns what the
  \<^verbatim>\<open>await\<close> yields.
\<close>

definition call_api_func :: "int kernel \<Rightarrow> nat \<times> int kernel" where
  "call_api_func st = run_dispatch api_func_blocking () None None () st"

subsection \<open>The join\<close>

text \<open>
  \<^verbatim>\<open>asyncio.gather(c1, ..., cn)\<close> makes a task of each coroutine in the order of the
  arguments; each task runs up to its first \<^verbatim>\<open>await\<close>.
\<close>

fun gather_dispatch :: "('r kernel \<Rightarrow> nat \<times> 'r kernel) list \<Rightarrow> 'r kernel \<Rightarrow> nat list \<times> 'r kernel" where
  "gather_dispatch [] st = ([], st)"
| "gather_dispatch (c # cs) st =
     (let (fut, st1) = c st;
          (futs, st2) = gather_dispatch cs st1
      in (fut # futs, st2))"

text \<open>
  The results of the children, in the order of the children, if every child is done
  and has a value.
\<close>

definition collect_results :: "nat list \<Rightarrow> 'r kernel \<Rightarrow> 'r list option" where
  "collect_results children st =
     those (map (\<lambda>c. case await c st of Some (Inr v) \<Rightarrow> Some v | _ \<Rightarrow> None) children)"

text \<open>
  What \<^verbatim>\<open>gather\<close> does when a child is done (\<^verbatim>\<open>return_exceptions=False\<close>): once the
  outer future is set it stays; the exception of the child is passed on at once; when
  all children are done the outer future gets the list of their results.
\<close>

definition gather_done_callback ::
  "nat list \<Rightarrow> nat \<Rightarrow> 'r kernel \<Rightarrow> 'r list outcome option \<Rightarrow> 'r list outcome option" where
  "gather_done_callback children fut st outer =
     (if outer \<noteq> None then outer
      else (case await fut st of
              Some (Inl exc) \<Rightarrow> Some (Inl exc)
            | _ \<Rightarrow>
                (case collect_results children st of
                   None \<Rightarrow> None
                 | Some results \<Rightarrow> Some (Inr results))))"

fun gather_sched ::
  "nat list \<Rightarrow> (nat \<times> nat) list \<Rightarrow> 'r kernel \<times> 'r list outcome option
     \<Rightarrow> ('r kernel \<times> 'r list outcome option) option" where
  "gather_sched children [] s = Some s"
| "gather_sched children ((ex, k) # sched) (st, outer) =
     (case finish ex k st of
        None \<Rightarrow> None
      | Some (fut, st1) \<Rightarrow>
          gather_sched children sched
            (st1, if fut \<in> set children then gather_done_callback children fut st1 outer
                  else outer))"

text \<open>
  \<^verbatim>\<open>await asyncio.gather(...)\<close> under a schedule: nothing while the outer future is
  pending, then the list of results or the exception. Without children the outer
  future is set at once.
\<close>

definition gather ::
  "('r kernel \<Rightarrow> nat \<times> 'r kernel) list \<Rightarrow> (nat \<times> nat) list \<Rightarrow> 'r kernel
     \<Rightarrow> ('r list outcome option \<times> 'r kernel) option" where
  "gather coros sched st =
     (let (children, st1) = gather_dispatch coros st
      in case gather_sched children sched
                (st1, if children = [] then Some (Inr []) else None) of
           None \<Rightarrow> None
         | Some (st2, outer) \<Rightarrow> Some (outer, st2))"

text \<open>
  \<^verbatim>\<open>main()\<close>: the list it prints, the exception it raises, or nothing while it waits.
\<close>

definition main :: "(nat \<times> nat) list \<Rightarrow> int kernel \<Rightarrow> (int list outcome option \<times> int kernel) option" where
  "main sched st =
     gather [call_api_func, call_api_func, call_api_func, call_api_func] sched st"



subsection \<open>Notions used in the proofs\<close>

text \<open>
  Future \<open>c\<close> can only ever hold \<open>out\<close>: it is pending or holds \<open>out\<close>, and every
  queued job that writes to it yields \<open>out\<close>.
\<close>

definition tracks :: "nat \<Rightarrow> 'r outcome \<Rightarrow> 'r kernel \<Rightarrow> bool" where
  "tracks c out st \<longleftrightarrow>
     c < length (futures st)
     \<and> (futures st ! c = None \<or> futures st ! c = Some out)
     \<and> (\<forall>p \<in> set (executors st). \<forall>(fut, fn) \<in> set (work_queue p). fut = c \<longrightarrow> fn () = out)"

text \<open>Future \<open>c\<close> is done or a job for it is queued.\<close>

definition served :: "nat \<Rightarrow> 'r kernel \<Rightarrow> bool" where
  "served c st \<longleftrightarrow>
     futures st ! c \<noteq> None \<or> (\<exists>p \<in> set (executors st). c \<in> fst ` set (work_queue p))"

definition drained :: "'r kernel \<Rightarrow> bool" where
  "drained st \<longleftrightarrow> (\<forall>p \<in> set (executors st). work_queue p = [])"

text \<open>
  The state in which \<^verbatim>\<open>run_in_executor\<close> submits when the loop has no default
  executor yet.
\<close>

definition with_default :: "'r kernel \<Rightarrow> 'r kernel" where
  "with_default st = st\<lparr>executors := executors st @ [\<lparr>max_workers = default_max_workers st, work_queue = []\<rparr>],
             default_executor := Some (length (executors st))\<rparr>"

text \<open>The number of jobs not yet finished.\<close>

definition backlog :: "'r kernel \<Rightarrow> nat" where
  "backlog st = sum_list (map (\<lambda>p. length (work_queue p)) (executors st))"



subsection \<open>Example data\<close>

text \<open>
  A document as the bucket holds them, a parser that knows three files, two listings
  (the second with two objects under one video path), a state left over from an
  earlier run, and a table of videos.
\<close>

definition example_doc :: "int \<Rightarrow> pyval" where
  "example_doc end_ms =
     PDict [(''video_id'', PStr ''abc''),
            (''most_watched_moments'',
               PList [PDict [(''time_start_ms'', PInt 0), (''time_end_ms'', PInt 4000)],
                      PDict [(''time_start_ms'', PInt 4000), (''time_end_ms'', PInt end_ms)]])]"

definition example_json_load :: "string \<Rightarrow> pyval outcome" where
  "example_json_load bytes =
     (if bytes = ''A'' then Inr (example_doc 507000)
      else if bytes = ''B'' then Inr (example_doc 522000)
      else if bytes = ''E'' then Inr (PDict [(''most_watched_moments'', PList [])])
      else Inl JSONDecodeError)"

definition example_objs :: "(exn + s3_object) list" where
  "example_objs =
     [Inr \<lparr>key = ''17/v1/video_data.json'', download = Inr ''A''\<rparr>,
      Inr \<lparr>key = ''17/v1/thumbnail.jpg'', download = Inl ClientError\<rparr>,
      Inr \<lparr>key = ''17/v2/video_data.json'', download = Inr ''B''\<rparr>]"

definition example_dup_objs :: "(exn + s3_object) list" where
  "example_dup_objs =
     [Inr \<lparr>key = ''17/v1/video_data.json'', download = Inr ''A''\<rparr>,
      Inr \<lparr>key = ''17/v2/video_data.json'', download = Inr ''A''\<rparr>,
      Inr \<lparr>key = ''17/v1/old_video_data.json'', download = Inr ''B''\<rparr>]"

definition example_state :: nb_state where
  "example_state = \<lparr>fs = Map.empty, all_data = [(''stale'', 1)]\<rparr>"

definition example_db :: "(int, unit) database" where
  "example_db =
     \<lparr>connect_error = None,
      execute = (\<lambda>q. if q = ''SELECT * FROM autoshorts.videos''
                      then Inr [\<lparr>s3_path = Some ''17/v1'', category_id = 17\<rparr>,
                                \<lparr>s3_path = None, category_id = 20\<rparr>,
                                \<lparr>s3_path = Some ''24/v9'', category_id = 24\<rparr>,
                                \<lparr>s3_path = Some ''17/v2'', category_id = 22\<rparr>]
                      else Inl DatabaseError)\<rparr>"

text \<open>Two blocking functions, one that returns and one that raises on zero, and three calls.\<close>

definition example_succ :: "int \<Rightarrow> unit \<Rightarrow> int outcome" where
  "example_succ x kwargs = Inr (x + 1)"

definition example_div :: "int \<Rightarrow> unit \<Rightarrow> int outcome" where
  "example_div x kwargs = (if x = 0 then Inl ValueError else Inr (100 div x))"


section \<open>Unfolding the model on concrete inputs\<close>

lemmas eval_defs = cell2_def loop_body_def download_file_def open_read_def vid_len_of_def
  moments_lookup_def seq_index_def vid_path_of_def example_doc_def example_json_load_def
  example_objs_def example_dup_objs_def example_state_def cell3_def s3_path_column_def

lemmas eval_db_defs = notebook_def cell7_def df_merge_def example_db_def

lemmas eval_async_defs = example_succ_def example_div_def to_async_def run_def run_dispatch_def run_in_executor_def submit_def
  new_pool_def default_max_workers_def finish_def running_def await_def partial_def
  fresh_kernel_def get_event_loop_def wf_kernel_def valid_executor_def Let_def

lemmas eval_main_defs = main_def gather_def collect_results_def gather_done_callback_def
  call_api_func_def api_func_blocking_def make_executor_def ThreadPoolExecutor_def


section \<open>Strings and dictionaries\<close>









lemma str_contains_sublist: "str_contains pat s = sublist pat s"
  by (induction s) (auto simp: sublist_Cons_right)

lemma map_of_dict_setitem: "map_of (dict_setitem d k v) = (map_of d)(k \<mapsto> v)"
  by (induction d k v rule: dict_setitem.induct) auto

lemma keys_dict_setitem:
  "map fst (dict_setitem d k v) = (if k \<in> set (map fst d) then map fst d else map fst d @ [k])"
  by (induction d k v rule: dict_setitem.induct) auto

lemma distinct_dict_setitem:
  "distinct (map fst d) \<Longrightarrow> distinct (map fst (dict_setitem d k v))"
  by (simp add: keys_dict_setitem)

section \<open>The loop of cell 2 and the join of cell 8\<close>

lemma loop_body_skip:
  "\<not> str_contains ''video_data.json'' (key obj) \<Longrightarrow> loop_body jl obj st = (None, st)"
  by (simp add: loop_body_def)

lemma loop_body_ok:
  assumes "str_contains ''video_data.json'' (key obj)"
    and "download obj = Inr bytes" and "jl bytes = Inr vid_data"
    and "vid_len_of vid_data = Inr vid_len"
  shows "loop_body jl obj st =
           (None, st\<lparr>fs := (fs st)(''tmp_data.json'' \<mapsto> bytes),
                     all_data := dict_setitem (all_data st) (vid_path_of (key obj)) vid_len\<rparr>)"
  using assms by (simp add: loop_body_def download_file_def open_read_def)

lemma loop_body_None_cases:
  assumes "loop_body jl obj st = (None, st')"
  shows "(\<not> str_contains ''video_data.json'' (key obj) \<and> st' = st) \<or>
         (str_contains ''video_data.json'' (key obj) \<and>
          (\<exists>bytes vid_data vid_len. download obj = Inr bytes \<and> jl bytes = Inr vid_data \<and>
              vid_len_of vid_data = Inr vid_len \<and>
              st' = st\<lparr>fs := (fs st)(''tmp_data.json'' \<mapsto> bytes),
                     all_data := dict_setitem (all_data st) (vid_path_of (key obj)) vid_len\<rparr>))"
  using assms
  by (auto simp: loop_body_def download_file_def open_read_def Let_def
           split: if_splits sum.splits option.splits prod.splits)

lemma cell2_loop_append:
  "cell2_loop jl (xs @ ys) st =
     (case cell2_loop jl xs st of
        (Some e, st1) \<Rightarrow> (Some e, st1)
      | (None, st1) \<Rightarrow> cell2_loop jl ys st1)"
  by (induction jl xs st rule: cell2_loop.induct) (auto split: prod.splits option.splits)

lemma loop_body_distinct:
  "distinct (map fst (all_data st)) \<Longrightarrow> loop_body jl obj st = (r, st')
     \<Longrightarrow> distinct (map fst (all_data st'))"
  by (auto simp: loop_body_def download_file_def open_read_def Let_def distinct_dict_setitem
           split: if_splits sum.splits option.splits prod.splits)

lemma cell2_loop_distinct:
  "distinct (map fst (all_data st)) \<Longrightarrow> cell2_loop jl objs st = (r, st')
     \<Longrightarrow> distinct (map fst (all_data st'))"
proof (induction jl objs st rule: cell2_loop.induct)
  case (1 jl st)
  then show ?case by simp
next
  case (2 jl e objs st)
  then show ?case by simp
next
  case (3 jl obj objs st)
  obtain r1 st1 where b: "loop_body jl obj st = (r1, st1)" by (cases "loop_body jl obj st")
  have d: "distinct (map fst (all_data st1))"
    using loop_body_distinct [OF "3.prems"(1) b] .
  show ?case
  proof (cases r1)
    case None
    with 3 b d show ?thesis by simp
  next
    case (Some e)
    with "3.prems" b d show ?thesis by simp
  qed
qed


lemma cell2_loop_unchanged:
  "cell2_loop jl ys st1 = (r, st') \<Longrightarrow>
   (\<forall>obj'. Inr obj' \<in> set ys \<and> str_contains ''video_data.json'' (key obj') \<longrightarrow> vid_path_of (key obj') \<noteq> p)
   \<Longrightarrow> map_of (all_data st') p = map_of (all_data st1) p"
proof (induction jl ys st1 rule: cell2_loop.induct)
  case (1 jl st)
  then show ?case by simp
next
  case (2 jl e objs st)
  then show ?case by simp
next
  case (3 jl obj objs st)
  obtain r1 st1 where b: "loop_body jl obj st = (r1, st1)" by (cases "loop_body jl obj st")
  have same: "map_of (all_data st1) p = map_of (all_data st) p"
    using b "3.prems"(2)
    by (auto simp: loop_body_def download_file_def open_read_def Let_def map_of_dict_setitem
           split: if_splits sum.splits option.splits prod.splits)
  show ?case
  proof (cases r1)
    case None
    with 3 b same show ?thesis by simp
  next
    case (Some e)
    with "3.prems" b same show ?thesis by simp
  qed
qed





lemma cell2_loop_snoc_split:
  assumes "cell2_loop jl (xs @ Inr obj # ys) st = (None, st')"
  shows "\<exists>st0 st1. cell2_loop jl xs st = (None, st0) \<and> loop_body jl obj st0 = (None, st1)
            \<and> cell2_loop jl (xs @ [Inr obj]) st = (None, st1) \<and> cell2_loop jl ys st1 = (None, st')"
  using assms
  by (auto simp: cell2_loop_append split: prod.splits option.splits)

lemma seq_index_last: "seq_index xs (- 1) = (if xs = [] then Inl IndexError else Inr (last xs))"
  by (cases xs rule: rev_cases) (auto simp: seq_index_def Let_def nth_append)

lemma moments_lookup_Inr_iff:
  "moments_lookup v = Inr t \<longleftrightarrow>
     (\<exists>d xs m. v = PDict d \<and> map_of d ''most_watched_moments'' = Some (PList xs) \<and> xs \<noteq> []
        \<and> last xs = PDict m \<and> map_of m ''time_end_ms'' = Some t)"
proof (cases v)
  case (PDict d)
  show ?thesis
  proof (cases "map_of d ''most_watched_moments''")
    case None
    with PDict show ?thesis by (simp add: moments_lookup_def)
  next
    case (Some ms)
    show ?thesis
    proof (cases ms)
      case (PList xs)
      show ?thesis
      proof (cases "xs = []")
        case True
        with PDict Some PList show ?thesis by (simp add: moments_lookup_def seq_index_last)
      next
        case False
        with PDict Some PList show ?thesis
          by (cases "last xs") (auto simp: moments_lookup_def seq_index_last split: option.splits)
      qed
    next
      case (PStr s)
      with PDict Some show ?thesis
        by (auto simp: moments_lookup_def split: sum.splits)
    qed (use PDict Some in \<open>simp_all add: moments_lookup_def\<close>)
  qed
qed (simp_all add: moments_lookup_def)

lemma moments_lookup_total:
  "nonempty_moments v \<longleftrightarrow> (\<exists>t. moments_lookup v = Inr t)"
proof -
  have "nonempty_moments v \<longleftrightarrow>
     (\<exists>d xs m t. v = PDict d \<and> map_of d ''most_watched_moments'' = Some (PList xs) \<and> xs \<noteq> []
        \<and> last xs = PDict m \<and> map_of m ''time_end_ms'' = Some t)"
  proof (cases v)
    case (PDict d)
    show ?thesis
    proof (cases "map_of d ''most_watched_moments''")
      case None
      with PDict show ?thesis by simp
    next
      case (Some ms)
      show ?thesis
      proof (cases ms)
        case (PList xs)
        with PDict Some show ?thesis by (cases "last xs") auto
      qed (use PDict Some in simp_all)
    qed
  qed simp_all
  then show ?thesis by (metis moments_lookup_Inr_iff)
qed


lemma cell2_loop_last_write:
  assumes run: "cell2_loop jl (before @ Inr obj # after) st = (None, st')"
    and m: "str_contains ''video_data.json'' (key obj)"
  shows "\<exists>bytes vid_data vid_len st1.
           download obj = Inr bytes \<and> jl bytes = Inr vid_data \<and> vid_len_of vid_data = Inr vid_len
         \<and> cell2_loop jl (before @ [Inr obj]) st = (None, st1)
         \<and> cell2_loop jl after st1 = (None, st')
         \<and> map_of (all_data st1) (vid_path_of (key obj)) = Some vid_len"
proof -
  from cell2_loop_snoc_split [OF run] obtain st0 st1 where
    b: "loop_body jl obj st0 = (None, st1)"
    and p: "cell2_loop jl (before @ [Inr obj]) st = (None, st1)"
    and a: "cell2_loop jl after st1 = (None, st')" by blast
  from loop_body_None_cases [OF b] m obtain bytes vid_data vid_len where
    "download obj = Inr bytes" "jl bytes = Inr vid_data" "vid_len_of vid_data = Inr vid_len"
    and st1: "st1 = st0\<lparr>fs := (fs st0)(''tmp_data.json'' \<mapsto> bytes),
                     all_data := dict_setitem (all_data st0) (vid_path_of (key obj)) vid_len\<rparr>"
    by blast
  moreover from st1 have "map_of (all_data st1) (vid_path_of (key obj)) = Some vid_len"
    by (simp add: map_of_dict_setitem)
  ultimately show ?thesis using p a by blast
qed


lemma distinct_filter_key:
  "distinct (map fst d) \<Longrightarrow> map_of d k = Some v \<Longrightarrow> [row \<leftarrow> d. fst row = k] = [(k, v)]"
proof (induction d)
  case Nil
  then show ?case by simp
next
  case (Cons row d)
  show ?case
  proof (cases "fst row = k")
    case True
    with Cons.prems have "row = (k, v)" by (cases row) simp
    moreover from True Cons.prems(1) have "k \<notin> fst ` set d" by simp
    then have "[row \<leftarrow> d. fst row = k] = []" by (auto simp: filter_empty_conv)
    ultimately show ?thesis by simp
  next
    case False
    with Cons show ?thesis by (cases row) auto
  qed
qed

lemma df_merge_member:
  "(p, vid_len, c) \<in> set (df_merge df df_vids) \<longleftrightarrow>
     (p, vid_len) \<in> set df \<and> (Some p, c) \<in> set df_vids"
proof
  assume "(p, vid_len, c) \<in> set (df_merge df df_vids)"
  then show "(p, vid_len) \<in> set df \<and> (Some p, c) \<in> set df_vids"
    by (auto simp: df_merge_def)
next
  assume a: "(p, vid_len) \<in> set df \<and> (Some p, c) \<in> set df_vids"
  then have "(p, vid_len, c) \<in> set (map (\<lambda>(q, c). (p, vid_len, c))
                                      (filter (\<lambda>(q, c). q = Some p) df_vids))"
    by force
  with a show "(p, vid_len, c) \<in> set (df_merge df df_vids)"
    unfolding df_merge_def set_concat by force
qed

section \<open>Workers, futures and schedules\<close>

lemma finishE:
  assumes "finish ex k st = Some (fut, st1)"
  obtains fn where "ex < length (executors st)"
    and "k < length (work_queue (executors st ! ex))"
    and "k < max_workers (executors st ! ex)"
    and "work_queue (executors st ! ex) ! k = (fut, fn)"
    and "st1 = st\<lparr>executors := (executors st)[ex := (executors st ! ex)\<lparr>work_queue :=
                     take k (work_queue (executors st ! ex)) @ drop (Suc k) (work_queue (executors st ! ex))\<rparr>],
                   futures := (futures st)[fut := Some (fn ())]\<rparr>"
  using assms
  by (auto simp: finish_def running_def Let_def split: if_splits prod.splits)

lemma set_take_drop_subset: "set (take k xs @ drop (Suc k) xs) \<subseteq> set xs"
  by (auto dest: in_set_takeD in_set_dropD)

lemma finish_pools:
  assumes "finish ex k st = Some (fut, st1)" and "p1 \<in> set (executors st1)"
  shows "\<exists>p \<in> set (executors st). max_workers p1 = max_workers p \<and> set (work_queue p1) \<subseteq> set (work_queue p)"
proof -
  from assms(1) obtain fn where ex: "ex < length (executors st)"
    and st1: "st1 = st\<lparr>executors := (executors st)[ex := (executors st ! ex)\<lparr>work_queue :=
                     take k (work_queue (executors st ! ex)) @ drop (Suc k) (work_queue (executors st ! ex))\<rparr>],
                   futures := (futures st)[fut := Some (fn ())]\<rparr>"
    by (rule finishE)
  let ?p' = "(executors st ! ex)\<lparr>work_queue :=
                     take k (work_queue (executors st ! ex)) @ drop (Suc k) (work_queue (executors st ! ex))\<rparr>"
  from assms(2) st1 have "p1 \<in> set ((executors st)[ex := ?p'])" by simp
  then have "p1 = ?p' \<or> p1 \<in> set (executors st)"
    using set_update_subset_insert [of "executors st" ex ?p'] by blast
  then show ?thesis
  proof
    assume "p1 = ?p'"
    then have "max_workers p1 = max_workers (executors st ! ex)"
      and "set (work_queue p1) \<subseteq> set (work_queue (executors st ! ex))"
      using set_take_drop_subset [of k "work_queue (executors st ! ex)"] by simp_all
    moreover have "executors st ! ex \<in> set (executors st)" using ex by simp
    ultimately show ?thesis by blast
  next
    assume "p1 \<in> set (executors st)"
    then show ?thesis by blast
  qed
qed

lemma finish_futures:
  assumes "finish ex k st = Some (fut, st1)"
  shows "\<exists>fn. (fut, fn) \<in> set (work_queue (executors st ! ex)) \<and> ex < length (executors st)
           \<and> futures st1 = (futures st)[fut := Some (fn ())]"
proof -
  from assms obtain fn where "ex < length (executors st)"
    and "k < length (work_queue (executors st ! ex))"
    and "work_queue (executors st ! ex) ! k = (fut, fn)"
    and "st1 = st\<lparr>executors := (executors st)[ex := (executors st ! ex)\<lparr>work_queue :=
                     take k (work_queue (executors st ! ex)) @ drop (Suc k) (work_queue (executors st ! ex))\<rparr>],
                   futures := (futures st)[fut := Some (fn ())]\<rparr>"
    by (rule finishE)
  then show ?thesis by (auto simp: in_set_conv_nth)
qed

lemma finish_default:
  "finish ex k st = Some (fut, st1) \<Longrightarrow>
     default_executor st1 = default_executor st \<and> length (executors st1) = length (executors st)
     \<and> cpu_count st1 = cpu_count st"
  by (erule finishE) simp

lemma finish_wf:
  assumes "wf_kernel st" and "finish ex k st = Some (fut, st1)"
  shows "wf_kernel st1"
proof -
  from finish_futures [OF assms(2)] have len: "length (futures st1) = length (futures st)" by auto
  have "0 < max_workers p1 \<and> (\<forall>(f, fn) \<in> set (work_queue p1). f < length (futures st1))"
    if "p1 \<in> set (executors st1)" for p1
  proof -
    from finish_pools [OF assms(2) that] obtain p where "p \<in> set (executors st)"
      and "max_workers p1 = max_workers p" and "set (work_queue p1) \<subseteq> set (work_queue p)" by blast
    with assms(1) len show ?thesis unfolding wf_kernel_def by fastforce
  qed
  with assms(1) finish_default [OF assms(2)] show ?thesis
    unfolding wf_kernel_def by (auto split: option.splits)
qed

lemma finish_tracks:
  assumes "tracks c out st" and "finish ex k st = Some (fut, st1)"
  shows "tracks c out st1"
proof -
  from finish_futures [OF assms(2)] obtain fn where
    q: "(fut, fn) \<in> set (work_queue (executors st ! ex))" and ex: "ex < length (executors st)"
    and f: "futures st1 = (futures st)[fut := Some (fn ())]" by blast
  have pin: "executors st ! ex \<in> set (executors st)" using ex by simp
  have c: "c < length (futures st1)" using assms(1) f by (simp add: tracks_def)
  have v: "futures st1 ! c = None \<or> futures st1 ! c = Some out"
  proof (cases "fut = c")
    case True
    with assms(1) q pin have "fn () = out" unfolding tracks_def by fastforce
    with True f c show ?thesis by simp
  next
    case False
    with assms(1) f show ?thesis by (simp add: tracks_def)
  qed
  have "\<forall>(f, fn) \<in> set (work_queue p1). f = c \<longrightarrow> fn () = out" if "p1 \<in> set (executors st1)" for p1
  proof -
    from finish_pools [OF assms(2) that] obtain p where "p \<in> set (executors st)"
      and "set (work_queue p1) \<subseteq> set (work_queue p)" by blast
    with assms(1) show ?thesis unfolding tracks_def by fastforce
  qed
  with c v show ?thesis unfolding tracks_def by blast
qed

lemma run_sched_wf:
  "wf_kernel st \<Longrightarrow> run_sched sched st = Some st2 \<Longrightarrow> wf_kernel st2"
proof (induction sched st rule: run_sched.induct)
  case (1 st)
  then show ?case by simp
next
  case (2 ex k sched st)
  then show ?case by (auto split: option.splits dest: finish_wf)
qed

lemma run_sched_tracks:
  "tracks c out st \<Longrightarrow> run_sched sched st = Some st2 \<Longrightarrow> tracks c out st2"
proof (induction sched st rule: run_sched.induct)
  case (1 st)
  then show ?case by simp
next
  case (2 ex k sched st)
  then show ?case by (auto split: option.splits dest: finish_tracks)
qed


lemma submit_pools:
  assumes "submit ex fn st = (fut, st1)" and "p1 \<in> set (executors st1)"
  shows "p1 \<in> set (executors st) \<or>
         (\<exists>p \<in> set (executors st). max_workers p1 = max_workers p
             \<and> work_queue p1 = work_queue p @ [(length (futures st), fn)])"
proof -
  let ?p' = "(executors st ! ex)\<lparr>work_queue := work_queue (executors st ! ex) @ [(length (futures st), fn)]\<rparr>"
  from assms have "p1 \<in> set ((executors st)[ex := ?p'])"
    by (auto simp: submit_def Let_def)
  then have "p1 = ?p' \<and> ex < length (executors st) \<or> p1 \<in> set (executors st)"
    by (cases "ex < length (executors st)") (auto simp: list_update_beyond dest: set_update_subset_insert [THEN subsetD])
  then show ?thesis by (auto intro: nth_mem)
qed

lemma submit_shape:
  assumes "submit ex fn st = (fut, st1)"
  shows "fut = length (futures st)" and "futures st1 = futures st @ [None]"
    and "length (executors st1) = length (executors st)"
    and "default_executor st1 = default_executor st" and "cpu_count st1 = cpu_count st"
  using assms by (auto simp: submit_def Let_def)

lemma submit_queued:
  assumes "submit ex fn st = (fut, st1)" and "ex < length (executors st)"
  shows "\<exists>p \<in> set (executors st1). (fut, fn) \<in> set (work_queue p)"
proof -
  let ?p' = "(executors st ! ex)\<lparr>work_queue := work_queue (executors st ! ex) @ [(length (futures st), fn)]\<rparr>"
  from assms have "executors st1 = (executors st)[ex := ?p']" and "fut = length (futures st)"
    by (auto simp: submit_def Let_def)
  with assms(2) have "?p' \<in> set (executors st1)" and "(fut, fn) \<in> set (work_queue ?p')"
    by (auto simp: set_update_memI)
  then show ?thesis by blast
qed

lemma submit_keeps_queued:
  assumes "submit ex fn st = (fut, st1)" and "p \<in> set (executors st)" and "x \<in> set (work_queue p)"
  shows "\<exists>p1 \<in> set (executors st1). x \<in> set (work_queue p1)"
proof -
  let ?p' = "(executors st ! ex)\<lparr>work_queue := work_queue (executors st ! ex) @ [(length (futures st), fn)]\<rparr>"
  from assms(1) have e: "executors st1 = (executors st)[ex := ?p']"
    by (auto simp: submit_def Let_def)
  from assms(2) obtain i where i: "i < length (executors st)" "executors st ! i = p"
    by (auto simp: in_set_conv_nth)
  show ?thesis
  proof (cases "i = ex")
    case True
    with i e have "?p' \<in> set (executors st1)" by (auto simp: set_update_memI)
    moreover from True i assms(3) have "x \<in> set (work_queue ?p')" by simp
    ultimately show ?thesis by blast
  next
    case False
    with i e have "executors st1 ! i = p" and "i < length (executors st1)" by simp_all
    then have "p \<in> set (executors st1)" by (metis nth_mem)
    with assms(3) show ?thesis by blast
  qed
qed

lemma submit_wf:
  assumes "wf_kernel st" and "submit ex fn st = (fut, st1)"
  shows "wf_kernel st1"
proof -
  note sh = submit_shape [OF assms(2)]
  have "0 < max_workers p1 \<and> (\<forall>(f, g) \<in> set (work_queue p1). f < length (futures st1))"
    if "p1 \<in> set (executors st1)" for p1
    using submit_pools [OF assms(2) that] assms(1) sh(2)
    unfolding wf_kernel_def by fastforce
  with assms(1) sh show ?thesis
    unfolding wf_kernel_def by (auto split: option.splits)
qed

lemma submit_tracks_new:
  assumes "wf_kernel st" and "submit ex fn st = (fut, st1)"
  shows "tracks fut (fn ()) st1"
proof -
  note sh = submit_shape [OF assms(2)]
  have "\<forall>(f, g) \<in> set (work_queue p1). f = fut \<longrightarrow> g () = fn ()"
    if "p1 \<in> set (executors st1)" for p1
    using submit_pools [OF assms(2) that] assms(1) sh(1)
    unfolding wf_kernel_def by fastforce
  with sh show ?thesis unfolding tracks_def by (simp add: nth_append)
qed

lemma submit_tracks_old:
  assumes "tracks c out st" and "submit ex fn st = (fut, st1)"
  shows "tracks c out st1"
proof -
  note sh = submit_shape [OF assms(2)]
  from assms(1) have c: "c < length (futures st)" by (simp add: tracks_def)
  have "\<forall>(f, g) \<in> set (work_queue p1). f = c \<longrightarrow> g () = out"
    if "p1 \<in> set (executors st1)" for p1
    using submit_pools [OF assms(2) that] assms(1) c
    unfolding tracks_def by fastforce
  with sh c assms(1) show ?thesis unfolding tracks_def by (simp add: nth_append)
qed

lemma submit_served_new:
  assumes "submit ex fn st = (fut, st1)" and "ex < length (executors st)"
  shows "served fut st1"
  using submit_queued [OF assms] unfolding served_def by force

lemma submit_served_old:
  assumes "served c st" and "c < length (futures st)" and "submit ex fn st = (fut, st1)"
  shows "served c st1"
proof (cases "futures st ! c \<noteq> None")
  case True
  with assms(2) submit_shape(2) [OF assms(3)] show ?thesis
    by (simp add: served_def nth_append)
next
  case False
  with assms(1) obtain p x where "p \<in> set (executors st)" "x \<in> set (work_queue p)" "fst x = c"
    unfolding served_def by auto
  with submit_keeps_queued [OF assms(3), of p x] obtain p1 where
    "p1 \<in> set (executors st1)" "x \<in> set (work_queue p1)" by blast
  with \<open>fst x = c\<close> have "\<exists>p \<in> set (executors st1). c \<in> fst ` set (work_queue p)" by blast
  then show ?thesis unfolding served_def by blast
qed

lemma fresh_kernel_wf: "wf_kernel (fresh_kernel cpus)"
  by (simp add: wf_kernel_def fresh_kernel_def)

lemma ThreadPoolExecutor_wf:
  assumes "wf_kernel st" and "ThreadPoolExecutor workers st = Inr (ex, st1)"
  shows "wf_kernel st1" and "ex < length (executors st1)"
proof -
  obtain n where n: "0 < n" and st1: "new_pool n st = (ex, st1)"
  proof (cases workers)
    case None
    with assms(2) that [of "default_max_workers st"] show ?thesis
      by (auto simp: ThreadPoolExecutor_def default_max_workers_def split: option.splits)
  next
    case (Some m)
    with assms(2) that [of m] show ?thesis
      by (auto simp: ThreadPoolExecutor_def split: if_splits)
  qed
  from st1 have e: "executors st1 = executors st @ [\<lparr>max_workers = n, work_queue = []\<rparr>]"
    and f: "futures st1 = futures st" and d: "default_executor st1 = default_executor st"
    and x: "ex = length (executors st)"
    by (auto simp: new_pool_def)
  from assms(1) n e f d show "wf_kernel st1"
    by (auto simp: wf_kernel_def split: option.splits)
  from e x show "ex < length (executors st1)" by simp
qed

lemma new_pool_shape:
  assumes "new_pool n st = (ex, st1)"
  shows "ex = length (executors st)"
    and "executors st1 = executors st @ [\<lparr>max_workers = n, work_queue = []\<rparr>]"
    and "futures st1 = futures st" and "default_executor st1 = default_executor st"
    and "cpu_count st1 = cpu_count st"
  using assms by (auto simp: new_pool_def)

lemma default_max_workers_ge: "5 \<le> default_max_workers st" "default_max_workers st \<le> 32"
  by (auto simp: default_max_workers_def split: option.splits)

lemma run_in_executor_cases:
  assumes "run_in_executor loop executor fn st = (fut, st1)"
  obtains (given) ex where "executor = Some ex" "submit ex fn st = (fut, st1)"
  | (default) ex where "executor = None" "default_executor st = Some ex" "submit ex fn st = (fut, st1)"
  | (created) "executor = None" "default_executor st = None"
      "submit (length (executors st)) fn
         (st\<lparr>executors := executors st @ [\<lparr>max_workers = default_max_workers st, work_queue = []\<rparr>],
             default_executor := Some (length (executors st))\<rparr>) = (fut, st1)"
  using assms
  by (auto simp: run_in_executor_def new_pool_def Let_def split: option.splits)

lemma with_default_wf: "wf_kernel st \<Longrightarrow> wf_kernel (with_default st)"
  using default_max_workers_ge(1) [of st]
  by (auto simp: wf_kernel_def with_default_def)

lemma with_default_tracks: "tracks c out st \<Longrightarrow> tracks c out (with_default st)"
  by (auto simp: tracks_def with_default_def)

lemma with_default_served: "served c st \<Longrightarrow> served c (with_default st)"
  by (auto simp: served_def with_default_def)

lemma run_in_executor_facts:
  assumes wf: "wf_kernel st" and v: "valid_executor executor st"
    and r: "run_in_executor loop executor fn st = (fut, st1)"
  shows "wf_kernel st1" and "fut = length (futures st)" and "futures st1 = futures st @ [None]"
    and "tracks fut (fn ()) st1" and "served fut st1"
    and "\<And>c out. tracks c out st \<Longrightarrow> tracks c out st1"
    and "\<And>c. served c st \<Longrightarrow> c < length (futures st) \<Longrightarrow> served c st1"
    and "length (executors st) \<le> length (executors st1)"
proof -
  from r obtain ex st0 where s: "submit ex fn st0 = (fut, st1)" and w0: "wf_kernel st0"
    and f0: "futures st0 = futures st" and e0: "ex < length (executors st0)"
    and t0: "\<And>c out. tracks c out st \<Longrightarrow> tracks c out st0"
    and s0: "\<And>c. served c st \<Longrightarrow> served c st0"
    and l0: "length (executors st) \<le> length (executors st0)"
  proof (cases rule: run_in_executor_cases)
    case (given ex)
    with wf v that [of ex st] show ?thesis by (simp add: valid_executor_def)
  next
    case (default ex)
    with wf that [of ex st] show ?thesis by (simp add: wf_kernel_def)
  next
    case created
    then have "submit (length (executors st)) fn (with_default st) = (fut, st1)"
      by (simp add: with_default_def)
    with that [of "length (executors st)" "with_default st"] wf show ?thesis
      by (simp add: with_default_wf with_default_tracks with_default_served)
         (simp add: with_default_def)
  qed
  note sh = submit_shape [OF s]
  show "wf_kernel st1" using submit_wf [OF w0 s] .
  show "fut = length (futures st)" using sh f0 by simp
  show "futures st1 = futures st @ [None]" using sh f0 by simp
  show "tracks fut (fn ()) st1" using submit_tracks_new [OF w0 s] .
  show "served fut st1" using submit_served_new [OF s e0] .
  show "\<And>c out. tracks c out st \<Longrightarrow> tracks c out st1"
    using t0 submit_tracks_old [OF _ s] by blast
  show "\<And>c. served c st \<Longrightarrow> c < length (futures st) \<Longrightarrow> served c st1"
    using s0 submit_served_old [OF _ _ s] f0 by simp
  show "length (executors st) \<le> length (executors st1)" using l0 sh by simp
qed


lemma set_subset_take_drop:
  assumes "k < length xs"
  shows "set xs \<subseteq> insert (xs ! k) (set (take k xs @ drop (Suc k) xs))"
proof -
  have "xs = take k xs @ xs ! k # drop (Suc k) xs" using assms by (rule id_take_nth_drop)
  then have "set xs = set (take k xs @ xs ! k # drop (Suc k) xs)" by simp
  then show ?thesis by auto
qed

lemma finish_keeps_queued:
  assumes "finish ex k st = Some (fut, st1)" and "p \<in> set (executors st)"
    and "x \<in> set (work_queue p)" and "fst x \<noteq> fut"
  shows "\<exists>p1 \<in> set (executors st1). x \<in> set (work_queue p1)"
proof -
  from assms(1) obtain fn where ex: "ex < length (executors st)"
    and k: "k < length (work_queue (executors st ! ex))"
    and at: "work_queue (executors st ! ex) ! k = (fut, fn)"
    and st1: "st1 = st\<lparr>executors := (executors st)[ex := (executors st ! ex)\<lparr>work_queue :=
                     take k (work_queue (executors st ! ex)) @ drop (Suc k) (work_queue (executors st ! ex))\<rparr>],
                   futures := (futures st)[fut := Some (fn ())]\<rparr>"
    by (rule finishE)
  let ?q = "work_queue (executors st ! ex)"
  let ?p' = "(executors st ! ex)\<lparr>work_queue := take k ?q @ drop (Suc k) ?q\<rparr>"
  from assms(2) obtain i where i: "i < length (executors st)" "executors st ! i = p"
    by (auto simp: in_set_conv_nth)
  show ?thesis
  proof (cases "i = ex")
    case True
    with i assms(3) have "x \<in> set ?q" by simp
    with set_subset_take_drop [OF k] at assms(4) have "x \<in> set (take k ?q @ drop (Suc k) ?q)"
      by auto
    then have "x \<in> set (work_queue ?p')" by simp
    moreover have "?p' \<in> set (executors st1)" using st1 ex by (simp add: set_update_memI)
    ultimately show ?thesis by blast
  next
    case False
    with i st1 have "executors st1 ! i = p" and "i < length (executors st1)" by simp_all
    then have "p \<in> set (executors st1)" by (metis nth_mem)
    with assms(3) show ?thesis by blast
  qed
qed

lemma finish_served:
  assumes "served c st" and "c < length (futures st)" and "finish ex k st = Some (fut, st1)"
  shows "served c st1"
proof -
  from finish_futures [OF assms(3)] obtain fn where
    f: "futures st1 = (futures st)[fut := Some (fn ())]" by blast
  show ?thesis
  proof (cases "fut = c")
    case True
    with f assms(2) show ?thesis by (simp add: served_def)
  next
    case False
    show ?thesis
    proof (cases "futures st ! c \<noteq> None")
      case True
      with f False show ?thesis by (simp add: served_def)
    next
      case no: False
      with assms(1) obtain p x where "p \<in> set (executors st)" "x \<in> set (work_queue p)" "fst x = c"
        unfolding served_def by auto
      with finish_keeps_queued [OF assms(3), of p x] False obtain p1 where
        "p1 \<in> set (executors st1)" "x \<in> set (work_queue p1)" by blast
      with \<open>fst x = c\<close> have "\<exists>p \<in> set (executors st1). c \<in> fst ` set (work_queue p)" by blast
      then show ?thesis unfolding served_def by blast
    qed
  qed
qed

lemma finish_length_futures:
  "finish ex k st = Some (fut, st1) \<Longrightarrow> length (futures st1) = length (futures st)"
  using finish_futures by fastforce

lemma run_sched_served:
  "served c st \<Longrightarrow> c < length (futures st) \<Longrightarrow> run_sched sched st = Some st2 \<Longrightarrow> served c st2"
proof (induction sched st rule: run_sched.induct)
  case (1 st)
  then show ?case by simp
next
  case (2 ex k sched st)
  from "2.prems"(3) obtain fut st1 where f: "finish ex k st = Some (fut, st1)"
    and r: "run_sched sched st1 = Some st2" by (auto split: option.splits)
  from finish_served [OF "2.prems"(1,2) f] finish_length_futures [OF f] "2.prems"(2)
  have "served c st1" "c < length (futures st1)" by simp_all
  with "2.IH" [OF f refl] r show ?case by simp
qed

lemma served_drained: "served c st \<Longrightarrow> drained st \<Longrightarrow> futures st ! c \<noteq> None"
  by (auto simp: served_def drained_def)

lemma finish_head:
  assumes "wf_kernel st" and "p \<in> set (executors st)" and "work_queue p \<noteq> []"
  shows "\<exists>ex fut st1. finish ex 0 st = Some (fut, st1) \<and> backlog st1 < backlog st"
proof -
  from assms(2) obtain ex where ex: "ex < length (executors st)" "executors st ! ex = p"
    by (auto simp: in_set_conv_nth)
  from assms have w: "0 < max_workers p" by (simp add: wf_kernel_def)
  obtain fut fn where hd: "work_queue p ! 0 = (fut, fn)" by (cases "work_queue p ! 0")
  let ?p' = "p\<lparr>work_queue := drop (Suc 0) (work_queue p)\<rparr>"
  let ?st1 = "st\<lparr>executors := (executors st)[ex := ?p'], futures := (futures st)[fut := Some (fn ())]\<rparr>"
  have fin: "finish ex 0 st = Some (fut, ?st1)"
    using ex w assms(3) hd by (simp add: finish_def running_def Let_def)
  let ?f = "\<lambda>p. length (work_queue p)"
  have "backlog ?st1 = sum_list ((map ?f (executors st))[ex := ?f ?p'])"
    by (simp add: backlog_def map_update)
  also have "\<dots> = sum_list (map ?f (executors st)) + ?f ?p' - (map ?f (executors st)) ! ex"
    using ex by (simp add: sum_list_update)
  also have "\<dots> = backlog st + (?f p - 1) - ?f p"
    using ex by (simp add: backlog_def)
  finally have b: "backlog ?st1 = backlog st + (?f p - 1) - ?f p" .
  have "?f p \<le> backlog st"
    unfolding backlog_def using assms(2) by (simp add: member_le_sum_list)
  moreover have "0 < ?f p" using assms(3) by simp
  ultimately have "backlog ?st1 < backlog st" using b by linarith
  with fin show ?thesis by blast
qed

lemma drain_exists:
  "wf_kernel st \<Longrightarrow> \<exists>sched st2. run_sched sched st = Some st2 \<and> drained st2"
proof (induction "backlog st" arbitrary: st rule: less_induct)
  case less
  show ?case
  proof (cases "drained st")
    case True
    then have "run_sched [] st = Some st \<and> drained st" by simp
    then show ?thesis by blast
  next
    case False
    then obtain p where "p \<in> set (executors st)" "work_queue p \<noteq> []"
      by (auto simp: drained_def)
    from finish_head [OF less.prems this] obtain ex fut st1 where
      f: "finish ex 0 st = Some (fut, st1)" and b: "backlog st1 < backlog st" by blast
    from less.hyps [OF b finish_wf [OF less.prems f]] obtain sched st2 where
      "run_sched sched st1 = Some st2" "drained st2" by blast
    with f have "run_sched ((ex, 0) # sched) st = Some st2 \<and> drained st2" by simp
    then show ?thesis by blast
  qed
qed

lemma run_dispatch_facts:
  assumes wf: "wf_kernel st" and v: "valid_executor executor st"
    and r: "run_dispatch func args loop executor kwargs st = (fut, st1)"
  shows "wf_kernel st1" and "fut = length (futures st)" and "futures st1 = futures st @ [None]"
    and "tracks fut (func args kwargs) st1" and "served fut st1"
    and "\<And>c out. tracks c out st \<Longrightarrow> tracks c out st1"
    and "\<And>c. served c st \<Longrightarrow> c < length (futures st) \<Longrightarrow> served c st1"
    and "length (executors st) \<le> length (executors st1)"
proof -
  obtain lp where r': "run_in_executor lp executor (partial func args kwargs) st = (fut, st1)"
    using r by (simp add: run_dispatch_def Let_def)
  note facts = run_in_executor_facts [OF wf v r']
  show "wf_kernel st1" by (rule facts(1))
  show "fut = length (futures st)" by (rule facts(2))
  show "futures st1 = futures st @ [None]" by (rule facts(3))
  show "tracks fut (func args kwargs) st1" using facts(4) by (simp add: partial_def)
  show "served fut st1" by (rule facts(5))
  show "\<And>c out. tracks c out st \<Longrightarrow> tracks c out st1" by (rule facts(6))
  show "\<And>c. served c st \<Longrightarrow> c < length (futures st) \<Longrightarrow> served c st1" by (rule facts(7))
  show "length (executors st) \<le> length (executors st1)" by (rule facts(8))
qed

lemma run_safe:
  assumes "wf_kernel st" and "valid_executor executor st"
    and "run func args loop executor kwargs sched st = Some (r, st2)"
  shows "r = None \<or> r = Some (func args kwargs)"
proof -
  obtain fut st1 where d: "run_dispatch func args loop executor kwargs st = (fut, st1)"
    by (cases "run_dispatch func args loop executor kwargs st")
  with assms(3) have s: "run_sched sched st1 = Some st2" and r: "r = await fut st2"
    by (auto simp: run_def split: option.splits)
  from run_sched_tracks [OF run_dispatch_facts(4) [OF assms(1,2) d] s]
  have "tracks fut (func args kwargs) st2" .
  with r show ?thesis by (auto simp: tracks_def await_def)
qed

lemma run_live:
  assumes "wf_kernel st" and "valid_executor executor st"
  shows "\<exists>sched st2. run func args loop executor kwargs sched st = Some (Some (func args kwargs), st2)"
proof -
  obtain fut st1 where d: "run_dispatch func args loop executor kwargs st = (fut, st1)"
    by (cases "run_dispatch func args loop executor kwargs st")
  note facts = run_dispatch_facts [OF assms d]
  from drain_exists [OF facts(1)] obtain sched st2 where
    s: "run_sched sched st1 = Some st2" and dr: "drained st2" by blast
  have t: "tracks fut (func args kwargs) st2" using run_sched_tracks [OF facts(4) s] .
  have "fut < length (futures st1)" using facts(2,3) by simp
  from run_sched_served [OF facts(5) this s] dr have "futures st2 ! fut \<noteq> None"
    by (rule served_drained)
  with t have "await fut st2 = Some (func args kwargs)" by (auto simp: tracks_def await_def)
  with d s have "run func args loop executor kwargs sched st = Some (Some (func args kwargs), st2)"
    by (simp add: run_def)
  then show ?thesis by blast
qed










section \<open>The join of coroutines\<close>


















section \<open>The statistics notebook: results\<close>





text \<open>
  C9. The lookup \<^verbatim>\<open>vid_data['most_watched_moments'][-1]['time_end_ms']\<close> succeeds, with
  the \<^verbatim>\<open>time_end_ms\<close> of the last element, on every document whose
  \<^verbatim>\<open>most_watched_moments\<close> is a non-empty list with a \<^verbatim>\<open>time_end_ms\<close> key in its last
  element; on every other document it raises.
\<close>

theorem moments_lookup_safe_iff_precondition:
  "(nonempty_moments vid_data \<longrightarrow>
      (\<exists>d moments m t. vid_data = PDict d
          \<and> map_of d ''most_watched_moments'' = Some (PList moments)
          \<and> last moments = PDict m \<and> map_of m ''time_end_ms'' = Some t
          \<and> moments_lookup vid_data = Inr t))
   \<and> (\<not> nonempty_moments vid_data \<longrightarrow> (\<exists>e. moments_lookup vid_data = Inl e))"
proof (cases "nonempty_moments vid_data")
  case True
  then obtain t where "moments_lookup vid_data = Inr t" using moments_lookup_total by blast
  with True show ?thesis by (auto simp: moments_lookup_Inr_iff)
next
  case False
  then have "\<nexists>t. moments_lookup vid_data = Inr t" using moments_lookup_total by blast
  then have "\<exists>e. moments_lookup vid_data = Inl e" by (cases "moments_lookup vid_data") auto
  with False show ?thesis by blast
qed

theorem moments_lookup_safe_iff_precondition_witness:
  "nonempty_moments (example_doc 507000)
   \<and> moments_lookup (example_doc 507000) = Inr (PInt 507000)
   \<and> \<not> nonempty_moments (PDict [(''most_watched_moments'', PList [])])
   \<and> moments_lookup (PDict [(''most_watched_moments'', PList [])]) = Inl IndexError
   \<and> \<not> nonempty_moments (PDict [(''most_watched_moments'', PList [PDict [(''time_start_ms'', PInt 0)]])])
   \<and> moments_lookup (PDict [(''most_watched_moments'', PList [PDict [(''time_start_ms'', PInt 0)]])])
        = Inl KeyError"
proof -
  have a: "nonempty_moments (example_doc 507000)" by (simp add: example_doc_def)
  have b: "\<not> nonempty_moments (PDict [(''most_watched_moments'', PList [])])" by simp
  have c: "\<not> nonempty_moments (PDict [(''most_watched_moments'', PList [PDict [(''time_start_ms'', PInt 0)]])])"
    by simp
  from a moments_lookup_safe_iff_precondition [of "example_doc 507000"]
  have "\<exists>t. moments_lookup (example_doc 507000) = Inr t" by blast
  then have a': "moments_lookup (example_doc 507000) = Inr (PInt 507000)"
    by (auto simp: moments_lookup_def example_doc_def seq_index_def)
  from b moments_lookup_safe_iff_precondition [of "PDict [(''most_watched_moments'', PList [])]"]
  have "\<exists>e. moments_lookup (PDict [(''most_watched_moments'', PList [])]) = Inl e" by blast
  then have b': "moments_lookup (PDict [(''most_watched_moments'', PList [])]) = Inl IndexError"
    by (auto simp: moments_lookup_def seq_index_def)
  have c': "moments_lookup (PDict [(''most_watched_moments'', PList [PDict [(''time_start_ms'', PInt 0)]])])
        = Inl KeyError"
    by (simp add: moments_lookup_def seq_index_def)
  from a a' b b' c c' show ?thesis by blast
qed

text \<open>
  C10. After cell 2, however it ended, \<^verbatim>\<open>all_data\<close> has one entry per path, so the
  \<^verbatim>\<open>s3_path\<close> values of the frame of cell 3 are pairwise distinct. When the cell ran
  to its end and two objects of the listing share a video path, the entry of that path
  holds the duration of the later one (of the last one with that path).
\<close>

theorem all_data_last_write_wins:
  assumes "cell2 json_load objs st = (r, st')"
  shows "distinct (map fst (all_data st'))
     \<and> distinct (s3_path_column (cell3 st'))
     \<and> (\<forall>before obj1 mid obj2 after.
           r = None \<and> objs = before @ Inr obj1 # mid @ Inr obj2 # after
           \<and> str_contains ''video_data.json'' (key obj1)
           \<and> str_contains ''video_data.json'' (key obj2)
           \<and> vid_path_of (key obj1) = vid_path_of (key obj2)
           \<and> (\<forall>obj'. Inr obj' \<in> set after \<and> str_contains ''video_data.json'' (key obj')
                  \<longrightarrow> vid_path_of (key obj') \<noteq> vid_path_of (key obj2))
           \<longrightarrow> (\<exists>bytes vid_data vid_len.
                  download obj2 = Inr bytes \<and> json_load bytes = Inr vid_data
                  \<and> vid_len_of vid_data = Inr vid_len
                  \<and> map_of (all_data st') (vid_path_of (key obj1)) = Some vid_len
                  \<and> [row \<leftarrow> cell3 st'. fst row = vid_path_of (key obj1)]
                       = [(vid_path_of (key obj1), vid_len)]))"
proof -
  from assms have run: "cell2_loop json_load objs (st\<lparr>all_data := []\<rparr>) = (r, st')"
    by (simp add: cell2_def)
  have d: "distinct (map fst (all_data st'))"
    using cell2_loop_distinct [OF _ run] by simp
  have w: "\<exists>bytes vid_data vid_len.
                  download obj2 = Inr bytes \<and> json_load bytes = Inr vid_data
                  \<and> vid_len_of vid_data = Inr vid_len
                  \<and> map_of (all_data st') (vid_path_of (key obj1)) = Some vid_len
                  \<and> [row \<leftarrow> cell3 st'. fst row = vid_path_of (key obj1)]
                       = [(vid_path_of (key obj1), vid_len)]"
    if r: "r = None" and o: "objs = before @ Inr obj1 # mid @ Inr obj2 # after"
      and m2: "str_contains ''video_data.json'' (key obj2)"
      and same: "vid_path_of (key obj1) = vid_path_of (key obj2)"
      and later: "\<forall>obj'. Inr obj' \<in> set after \<and> str_contains ''video_data.json'' (key obj')
                  \<longrightarrow> vid_path_of (key obj') \<noteq> vid_path_of (key obj2)"
    for before obj1 mid obj2 after
  proof -
    from run r o have
      "cell2_loop json_load ((before @ Inr obj1 # mid) @ Inr obj2 # after) (st\<lparr>all_data := []\<rparr>) = (None, st')"
      by simp
    from cell2_loop_last_write [OF this m2] obtain bytes vid_data vid_len st1 where
      f: "download obj2 = Inr bytes" "json_load bytes = Inr vid_data"
         "vid_len_of vid_data = Inr vid_len"
      and post: "cell2_loop json_load after st1 = (None, st')"
      and here: "map_of (all_data st1) (vid_path_of (key obj2)) = Some vid_len" by blast
    from cell2_loop_unchanged [OF post later] here same
    have v: "map_of (all_data st') (vid_path_of (key obj1)) = Some vid_len" by simp
    from distinct_filter_key [OF d v]
    have "[row \<leftarrow> cell3 st'. fst row = vid_path_of (key obj1)] = [(vid_path_of (key obj1), vid_len)]"
      by (simp add: cell3_def)
    with f v show ?thesis by blast
  qed
  have "distinct (s3_path_column (cell3 st'))" using d by (simp add: s3_path_column_def cell3_def)
  with d w show ?thesis by blast
qed


theorem all_data_last_write_wins_witness:
  "cell2 example_json_load example_dup_objs example_state
     = (None, \<lparr>fs = [''tmp_data.json'' \<mapsto> ''B''], all_data = [(''17/v1'', 522), (''17/v2'', 507)]\<rparr>)
   \<and> distinct (s3_path_column [(''17/v1'', 522 :: real), (''17/v2'', 507)])
   \<and> map_of [(''17/v1'', 522 :: real), (''17/v2'', 507)] ''17/v1'' = Some 522
   \<and> [row \<leftarrow> [(''17/v1'', 522 :: real), (''17/v2'', 507)]. fst row = ''17/v1''] = [(''17/v1'', 522)]"
proof -
  let ?st' = "\<lparr>fs = [''tmp_data.json'' \<mapsto> ''B''], all_data = [(''17/v1'', 522), (''17/v2'', 507)]\<rparr>"
  let ?o1 = "\<lparr>key = ''17/v1/video_data.json'', download = Inr ''A''\<rparr>"
  let ?o2 = "\<lparr>key = ''17/v1/old_video_data.json'', download = Inr ''B''\<rparr>"
  let ?mid = "[Inr \<lparr>key = ''17/v2/video_data.json'', download = Inr ''A''\<rparr>]"
  have run: "cell2 example_json_load example_dup_objs example_state = (None, ?st')"
    by (simp add: eval_defs)
  note th = all_data_last_write_wins [OF run]
  have shape: "example_dup_objs = [] @ Inr ?o1 # ?mid @ Inr ?o2 # []"
    by (simp add: example_dup_objs_def)
  have m: "str_contains ''video_data.json'' (key ?o1)" "str_contains ''video_data.json'' (key ?o2)"
    by simp_all
  have p: "vid_path_of (key ?o1) = ''17/v1''" "vid_path_of (key ?o2) = ''17/v1''"
    by (simp_all add: vid_path_of_def)
  from th have d: "distinct (s3_path_column (cell3 ?st'))" by blast
  note inst = th [THEN conjunct2, THEN conjunct2, THEN spec, THEN spec, THEN spec, THEN spec,
      THEN spec, THEN mp, of "[]" ?o1 ?mid ?o2 "[]"]
  have "\<exists>bytes vid_data vid_len.
                  download ?o2 = Inr bytes \<and> example_json_load bytes = Inr vid_data
                  \<and> vid_len_of vid_data = Inr vid_len
                  \<and> map_of (all_data ?st') (vid_path_of (key ?o1)) = Some vid_len
                  \<and> [row \<leftarrow> cell3 ?st'. fst row = vid_path_of (key ?o1)]
                       = [(vid_path_of (key ?o1), vid_len)]"
    by (rule inst) (simp add: example_dup_objs_def vid_path_of_def)
  with p obtain vid_len where
    w: "map_of (all_data ?st') ''17/v1'' = Some vid_len"
       "[row \<leftarrow> cell3 ?st'. fst row = ''17/v1''] = [(''17/v1'', vid_len)]"
    by auto
  from w(1) have "vid_len = 522" by simp
  with w d run show ?thesis by (simp add: cell3_def)
qed

text \<open>
  C7. A run of the notebook sends at most one statement to the database, and none but
  \<^verbatim>\<open>SELECT * FROM autoshorts.videos\<close>. A run that produces \<^verbatim>\<open>final_df\<close> has sent
  exactly that one; \<^verbatim>\<open>final_df\<close> is the join of the table of durations with the
  columns \<^verbatim>\<open>s3_path\<close> and \<^verbatim>\<open>category_id\<close> of the rows returned: each of its rows is
  a row of the durations together with the category of a returned row with the same
  path, and every such pair gives a row.
\<close>

theorem notebook_query_and_join:
  "set (fst (notebook json_load objs db st)) \<subseteq> {''SELECT * FROM autoshorts.videos''}
   \<and> length (fst (notebook json_load objs db st)) \<le> 1
   \<and> (\<forall>final_df. snd (notebook json_load objs db st) = Inr final_df \<longrightarrow>
         fst (notebook json_load objs db st) = [''SELECT * FROM autoshorts.videos'']
         \<and> (\<exists>st1 rows.
               cell2 json_load objs st = (None, st1)
               \<and> execute db ''SELECT * FROM autoshorts.videos'' = Inr rows
               \<and> final_df = df_merge (cell3 st1) (map (\<lambda>r. (s3_path r, category_id r)) rows)
               \<and> (\<forall>(p, vid_len, c) \<in> set final_df.
                      (p, vid_len) \<in> set (cell3 st1)
                      \<and> (\<exists>r \<in> set rows. s3_path r = Some p \<and> category_id r = c))
               \<and> (\<forall>(p, vid_len) \<in> set (cell3 st1). \<forall>r \<in> set rows.
                      s3_path r = Some p \<longrightarrow> (p, vid_len, category_id r) \<in> set final_df)))"
proof -
  let ?q = "''SELECT * FROM autoshorts.videos''"
  let ?n = "notebook json_load objs db st"
  have sql7: "fst (cell7 db) = [] \<or> fst (cell7 db) = [?q]"
    by (auto simp: cell7_def Let_def split: option.splits sum.splits)
  have sql: "fst ?n = [] \<or> fst ?n = [?q]"
    using sql7 by (auto simp: notebook_def Let_def split: prod.splits option.splits sum.splits)
  have ok: "fst ?n = [?q] \<and> (\<exists>st1 rows.
               cell2 json_load objs st = (None, st1)
               \<and> execute db ?q = Inr rows
               \<and> final_df = df_merge (cell3 st1) (map (\<lambda>r. (s3_path r, category_id r)) rows)
               \<and> (\<forall>(p, vid_len, c) \<in> set final_df.
                      (p, vid_len) \<in> set (cell3 st1)
                      \<and> (\<exists>r \<in> set rows. s3_path r = Some p \<and> category_id r = c))
               \<and> (\<forall>(p, vid_len) \<in> set (cell3 st1). \<forall>r \<in> set rows.
                      s3_path r = Some p \<longrightarrow> (p, vid_len, category_id r) \<in> set final_df))"
    if fin: "snd ?n = Inr final_df" for final_df
  proof -
    from fin obtain st1 sql df_vids where c2: "cell2 json_load objs st = (None, st1)"
      and c7: "cell7 db = (sql, Inr df_vids)"
      and f: "final_df = df_merge (cell3 st1) df_vids" and n: "fst ?n = sql"
      by (auto simp: notebook_def Let_def split: prod.splits option.splits sum.splits)
    from c7 obtain rows where ex: "execute db ?q = Inr rows" and s: "sql = [?q]"
      and v: "df_vids = map (\<lambda>r. (s3_path r, category_id r)) rows"
      by (auto simp: cell7_def Let_def split: option.splits sum.splits)
    have sound: "\<forall>(p, vid_len, c) \<in> set final_df.
                      (p, vid_len) \<in> set (cell3 st1)
                      \<and> (\<exists>r \<in> set rows. s3_path r = Some p \<and> category_id r = c)"
      unfolding f v by (fastforce simp: df_merge_member)
    have complete: "\<forall>(p, vid_len) \<in> set (cell3 st1). \<forall>r \<in> set rows.
                      s3_path r = Some p \<longrightarrow> (p, vid_len, category_id r) \<in> set final_df"
      unfolding f v by (force simp: df_merge_member)
    from n s c2 ex f v sound complete show ?thesis by blast
  qed
  from sql ok show ?thesis by auto
qed


theorem notebook_query_and_join_witness:
  "snd (notebook example_json_load example_objs example_db example_state)
      = Inr [(''17/v1'', 507, 17), (''17/v2'', 522, 22)]
   \<and> fst (notebook example_json_load example_objs example_db example_state)
      = [''SELECT * FROM autoshorts.videos'']
   \<and> (\<exists>rows. execute example_db ''SELECT * FROM autoshorts.videos'' = Inr rows
         \<and> (\<forall>(p, vid_len, c) \<in> set [(''17/v1'', 507 :: real, 17 :: int), (''17/v2'', 522, 22)].
               \<exists>r \<in> set rows. s3_path r = Some p \<and> category_id r = c))"
proof -
  have run: "snd (notebook example_json_load example_objs example_db example_state)
      = Inr [(''17/v1'', 507, 17), (''17/v2'', 522, 22)]"
    by (simp add: eval_defs eval_db_defs)
  from notebook_query_and_join [of example_json_load example_objs example_db example_state,
      THEN conjunct2, THEN conjunct2, THEN spec, THEN mp, OF run]
  obtain st1 rows where sql: "fst (notebook example_json_load example_objs example_db example_state)
      = [''SELECT * FROM autoshorts.videos'']"
    and ex: "execute example_db ''SELECT * FROM autoshorts.videos'' = Inr rows"
    and rows: "\<forall>(p, vid_len, c) \<in> set [(''17/v1'', 507 :: real, 17 :: int), (''17/v2'', 522, 22)].
                 (p, vid_len) \<in> set (cell3 st1)
                 \<and> (\<exists>r \<in> set rows. s3_path r = Some p \<and> category_id r = c)"
    by (elim conjE exE)
  from rows have "\<forall>(p, vid_len, c) \<in> set [(''17/v1'', 507 :: real, 17 :: int), (''17/v2'', 522, 22)].
                 \<exists>r \<in> set rows. s3_path r = Some p \<and> category_id r = c"
    by simp
  with ex have "\<exists>rows. execute example_db ''SELECT * FROM autoshorts.videos'' = Inr rows
         \<and> (\<forall>(p, vid_len, c) \<in> set [(''17/v1'', 507 :: real, 17 :: int), (''17/v2'', 522, 22)].
               \<exists>r \<in> set rows. s3_path r = Some p \<and> category_id r = c)"
    by (intro exI conjI)
  with run sql show ?thesis by (intro conjI)
qed

section \<open>The asynchronous wrapper: results\<close>

text \<open>
  C1. Awaiting the coroutine that \<^verbatim>\<open>to_async(func)\<close> makes for some arguments yields
  exactly the value \<open>func\<close> returns for them: under every schedule of the worker
  threads the \<^verbatim>\<open>await\<close> is still pending or has yielded that value, and some
  schedule makes it yield.
\<close>

theorem to_async_returns_value:
  assumes "wf_kernel st" and "valid_executor executor st" and "func args kwargs = Inr v"
  shows "(\<forall>sched r st2. to_async func args loop executor kwargs sched st = Some (r, st2)
            \<longrightarrow> r = None \<or> r = Some (Inr v))
       \<and> (\<exists>sched st2. to_async func args loop executor kwargs sched st = Some (Some (Inr v), st2))"
  using run_safe [OF assms(1,2), of func args loop kwargs]
    run_live [OF assms(1,2), of func args loop kwargs] assms(3)
  unfolding to_async_def by simp

theorem to_async_returns_value_witness:
  "wf_kernel (fresh_kernel (Some 4) :: int kernel)
   \<and> valid_executor None (fresh_kernel (Some 4) :: int kernel)
   \<and> example_succ 41 () = Inr 42
   \<and> to_async example_succ 41 None None () [(0, 0)] (fresh_kernel (Some 4))
        = Some (Some (Inr 42),
                \<lparr>executors = [\<lparr>max_workers = 8, work_queue = []\<rparr>], default_executor = Some 0,
                 cpu_count = Some 4, futures = [Some (Inr 42)]\<rparr>)
   \<and> to_async example_succ 41 None None () [] (fresh_kernel (Some 4))
        = Some (None,
                \<lparr>executors = [\<lparr>max_workers = 8, work_queue = [(0, partial example_succ 41 ())]\<rparr>],
                 default_executor = Some 0, cpu_count = Some 4, futures = [None]\<rparr>)
   \<and> (\<exists>sched st2. to_async example_succ 41 None None () sched (fresh_kernel (Some 4))
                       = Some (Some (Inr 42), st2))
   \<and> \<not> (\<exists>sched r st2. to_async example_succ 41 None None () sched (fresh_kernel (Some 4))
                       = Some (r, st2) \<and> r \<noteq> None \<and> r \<noteq> Some (Inr 42))"
proof -
  have wf: "wf_kernel (fresh_kernel (Some 4) :: int kernel)" by (simp add: wf_kernel_def fresh_kernel_def)
  have v: "valid_executor None (fresh_kernel (Some 4) :: int kernel)" by (simp add: valid_executor_def)
  have f: "example_succ 41 () = Inr 42" by (simp add: example_succ_def)
  have ev: "to_async example_succ 41 None None () [(0, 0)] (fresh_kernel (Some 4))
        = Some (Some (Inr 42),
                \<lparr>executors = [\<lparr>max_workers = 8, work_queue = []\<rparr>], default_executor = Some 0,
                 cpu_count = Some 4, futures = [Some (Inr 42)]\<rparr>)"
    by (simp add: eval_async_defs)
  have pending: "to_async example_succ 41 None None () [] (fresh_kernel (Some 4))
        = Some (None,
                \<lparr>executors = [\<lparr>max_workers = 8, work_queue = [(0, partial example_succ 41 ())]\<rparr>],
                 default_executor = Some 0, cpu_count = Some 4, futures = [None]\<rparr>)"
    by (simp add: to_async_def run_def run_dispatch_def run_in_executor_def submit_def
          new_pool_def default_max_workers_def await_def fresh_kernel_def get_event_loop_def)
  note th = to_async_returns_value [where func = example_succ and args = 41 and kwargs = "()"
      and loop = None, OF wf v f]
  from th have live: "\<exists>sched st2. to_async example_succ 41 None None () sched (fresh_kernel (Some 4))
                       = Some (Some (Inr 42), st2)" by (rule conjunct2)
  from th have safe: "\<not> (\<exists>sched r st2. to_async example_succ 41 None None () sched (fresh_kernel (Some 4))
                       = Some (r, st2) \<and> r \<noteq> None \<and> r \<noteq> Some (Inr 42))" by blast
  from wf v f ev pending live safe show ?thesis by (intro conjI)
qed




text \<open>
  C3. Where the four calls of \<^verbatim>\<open>main\<close> are submitted. In a fresh kernel
  \<^verbatim>\<open>_executor\<close> is pool 0, with one worker. \<^verbatim>\<open>call_api_func\<close> passes no executor, so
  the four jobs go to the default executor of the loop, created at the first call as
  pool 1 with \<^verbatim>\<open>min(32, cpu_count + 4)\<close> workers, at least five: all four jobs are
  being run at once, the queue of \<^verbatim>\<open>_executor\<close> stays empty, and no worker of
  \<^verbatim>\<open>_executor\<close> has a job to finish.
\<close>

theorem main_dispatches_to_default_executor:
  "(case make_executor (fresh_kernel cpus) of
      Inl e \<Rightarrow> False
    | Inr (executor, st0) \<Rightarrow>
        (case gather_dispatch [call_api_func, call_api_func, call_api_func, call_api_func] st0 of
           (children, st1) \<Rightarrow>
              executor = 0
            \<and> max_workers (executors st1 ! executor) = 1
            \<and> work_queue (executors st1 ! executor) = []
            \<and> default_executor st0 = None
            \<and> default_executor st1 = Some 1
            \<and> max_workers (executors st1 ! 1) = default_max_workers st0
            \<and> 5 \<le> max_workers (executors st1 ! 1)
            \<and> children = [0, 1, 2, 3]
            \<and> map fst (work_queue (executors st1 ! 1)) = children
            \<and> map fst (running (executors st1 ! 1)) = children
            \<and> main [(executor, 0)] st0 = None))"
proof -
  have "5 \<le> min 32 ((case cpus of None \<Rightarrow> 1 | Some n \<Rightarrow> if n = 0 then 1 else n) + 4)"
    by (auto split: option.splits)
  then show ?thesis
    by (simp add: eval_main_defs eval_async_defs)
qed





section \<open>Failures in both notebooks\<close>





end
